theory Spec2Isabelle
  imports Complex_Main
begin

section \<open>Values of the search: integers extended with the two infinities\<close>

text \<open>
  The heuristic of \<^verbatim>\<open>my_player.py\<close> adds and subtracts the integer scores and
  the integer formation counts of the Divercite rules engine, so a leaf value is a Python
  \<^verbatim>\<open>int\<close>. The search compares such values with \<^verbatim>\<open>-math.inf\<close> and
  \<^verbatim>\<open>math.inf\<close>; Python compares an \<^verbatim>\<open>int\<close> with an infinite float
  exactly, so the values of the search are the integers with a least and a greatest element.
\<close>

datatype val = MInf | Fin int | PInf

instantiation val :: linorder
begin

fun less_eq_val :: "val \<Rightarrow> val \<Rightarrow> bool" where
  "less_eq_val MInf _ = True"
| "less_eq_val (Fin a) MInf = False"
| "less_eq_val (Fin a) (Fin b) = (a \<le> b)"
| "less_eq_val (Fin a) PInf = True"
| "less_eq_val PInf PInf = True"
| "less_eq_val PInf _ = False"

definition less_val :: "val \<Rightarrow> val \<Rightarrow> bool" where
  "less_val x y = (x \<le> y \<and> \<not> y \<le> x)"

instance
proof
  fix x y z :: val
  show "(x < y) = (x \<le> y \<and> \<not> y \<le> x)"
    by (simp add: less_val_def)
  show "x \<le> x"
    by (cases x) simp_all
  show "x \<le> y \<Longrightarrow> y \<le> z \<Longrightarrow> x \<le> z"
    by (cases x; cases y; cases z) simp_all
  show "x \<le> y \<Longrightarrow> y \<le> x \<Longrightarrow> x = y"
    by (cases x; cases y) simp_all
  show "x \<le> y \<or> y \<le> x"
    by (cases x; cases y) auto
qed

end

section \<open>The collaborators of the agent\<close>

text \<open>
  The game state, the moves and the rules engine belong to the host framework and are not
  part of \<^verbatim>\<open>my_player.py\<close>. The agent reaches them only through the calls below,
  so they are taken as parameters: a state is a value of an arbitrary type \<open>'s\<close>, a move a
  value of an arbitrary type \<open>'a\<close> compared by equality, and the record holds one field
  for each call the agent makes. \<^verbatim>\<open>state.scores\<close> and the board environment are
  dictionaries, the player list is a sequence of player ids.
\<close>

datatype error = KeyError | MethodNotImplementedError

record piece =
  owner_id :: int

record ('s, 'a) game =
  is_done :: "'s \<Rightarrow> bool"
  generate_possible_light_actions :: "'s \<Rightarrow> 'a list"
  apply_action :: "'s \<Rightarrow> 'a \<Rightarrow> 's"
  scores :: "'s \<Rightarrow> int \<rightharpoonup> int"
  players :: "'s \<Rightarrow> int list"
  get_dimensions :: "'s \<Rightarrow> nat \<times> nat"
  get_env :: "'s \<Rightarrow> nat \<times> nat \<rightharpoonup> piece"
  in_board :: "'s \<Rightarrow> nat \<times> nat \<Rightarrow> bool"
  check_divercite :: "'s \<Rightarrow> nat \<times> nat \<Rightarrow> bool"

section \<open>The agent\<close>

text \<open>
  The fields of \<^verbatim>\<open>MyPlayer\<close> that the code reads: the id answered by
  \<^verbatim>\<open>get_id()\<close> and the two fields set by \<^verbatim>\<open>__init__\<close>. Times are
  seconds, taken as real numbers.
\<close>

record my_player =
  get_id :: int
  time_used :: real
  total_time_budget :: real

definition init :: "int \<Rightarrow> my_player" where
  "init pid = \<lparr>get_id = pid, time_used = 0, total_time_budget = 900\<rparr>"

subsection \<open>\<^verbatim>\<open>get_opponent_id\<close>\<close>

text \<open>
  The scan returns the first id of the player list that differs from the agent's; when the
  loop ends without a return the Python function answers \<^verbatim>\<open>None\<close>.
\<close>

fun first_other_id :: "int \<Rightarrow> int list \<Rightarrow> int option" where
  "first_other_id current_player_id [] = None"
| "first_other_id current_player_id (player # rest) =
     (if player \<noteq> current_player_id then Some player
      else first_other_id current_player_id rest)"

definition get_opponent_id :: "('s, 'a) game \<Rightarrow> my_player \<Rightarrow> 's \<Rightarrow> int option" where
  "get_opponent_id g me game_state = first_other_id (get_id me) (players g game_state)"

subsection \<open>\<^verbatim>\<open>get_dynamic_depth\<close>\<close>

definition get_dynamic_depth :: "real \<Rightarrow> nat" where
  "get_dynamic_depth remaining_time =
     (if remaining_time > 600 then 3
      else if remaining_time > 300 then 2
      else 1)"

subsection \<open>\<^verbatim>\<open>count_divercite_potential\<close>\<close>

text \<open>
  One step of the inner loop body at the cell \<open>(i, j)\<close>. A piece object is truthy, so the
  test on \<^verbatim>\<open>get_env().get((i, j))\<close> holds exactly when the dictionary has the key.
\<close>

definition count_cell :: "('s, 'a) game \<Rightarrow> 's \<Rightarrow> int \<Rightarrow> nat \<Rightarrow> nat \<Rightarrow> int \<Rightarrow> int" where
  "count_cell g state player_id i j count =
     (if in_board g state (i, j) \<and> get_env g state (i, j) \<noteq> None then
        (case get_env g state (i, j) of
           None \<Rightarrow> count
         | Some piece \<Rightarrow>
             if owner_id piece = player_id \<and> check_divercite g state (i, j)
             then count + 1 else count)
      else count)"

definition count_divercite_potential :: "('s, 'a) game \<Rightarrow> 's \<Rightarrow> int \<Rightarrow> int" where
  "count_divercite_potential g state player_id =
     fold (\<lambda>i count.
             fold (\<lambda>j count. count_cell g state player_id i j count)
                  [0 ..< snd (get_dimensions g state)] count)
          [0 ..< fst (get_dimensions g state)] 0"

subsection \<open>\<^verbatim>\<open>evaluate_state\<close>\<close>

text \<open>
  Indexing the score dictionary with a key it does not hold raises \<^verbatim>\<open>KeyError\<close>;
  so does indexing it with the \<^verbatim>\<open>None\<close> of an unresolved opponent, which is
  never a player id.
\<close>

definition evaluate_state :: "('s, 'a) game \<Rightarrow> my_player \<Rightarrow> 's \<Rightarrow> error + int" where
  "evaluate_state g me state =
     (case scores g state (get_id me) of
        None \<Rightarrow> Inl KeyError
      | Some player_score \<Rightarrow>
     (case get_opponent_id g me state of
        None \<Rightarrow> Inl KeyError
      | Some opponent_id \<Rightarrow>
     (case scores g state opponent_id of
        None \<Rightarrow> Inl KeyError
      | Some opponent_score \<Rightarrow>
          let divercite_bonus = 5;
              score_diff = player_score - opponent_score;
              divercite_potential =
                count_divercite_potential g state (get_id me)
                - count_divercite_potential g state opponent_id
          in Inr (score_diff + divercite_potential * divercite_bonus))))"

subsection \<open>\<^verbatim>\<open>minimax\<close>\<close>

text \<open>
  The two \<^verbatim>\<open>for\<close> loops of \<^verbatim>\<open>minimax\<close>, over the moves still to explore.
  \<open>child action alpha beta\<close> is the value of the recursive call on the successor of
  \<open>action\<close> with the window of that moment; an exception raised below ends the loop.
\<close>

fun max_loop ::
  "('a \<Rightarrow> val \<Rightarrow> val \<Rightarrow> error + val) \<Rightarrow> 'a list \<Rightarrow> val \<Rightarrow> 'a option \<Rightarrow> val \<Rightarrow> val
     \<Rightarrow> error + (val \<times> 'a option)" where
  "max_loop child [] max_value best_action alpha beta = Inr (max_value, best_action)"
| "max_loop child (action # rest) max_value best_action alpha beta =
     (case child action alpha beta of
        Inl e \<Rightarrow> Inl e
      | Inr value \<Rightarrow>
          if value > max_value then
            (if value \<ge> beta then Inr (value, Some action)
             else max_loop child rest value (Some action) value beta)
          else
            (if max_value \<ge> beta then Inr (max_value, best_action)
             else max_loop child rest max_value best_action alpha beta))"

fun min_loop ::
  "('a \<Rightarrow> val \<Rightarrow> val \<Rightarrow> error + val) \<Rightarrow> 'a list \<Rightarrow> val \<Rightarrow> 'a option \<Rightarrow> val \<Rightarrow> val
     \<Rightarrow> error + (val \<times> 'a option)" where
  "min_loop child [] min_value best_action alpha beta = Inr (min_value, best_action)"
| "min_loop child (action # rest) min_value best_action alpha beta =
     (case child action alpha beta of
        Inl e \<Rightarrow> Inl e
      | Inr value \<Rightarrow>
          if value < min_value then
            (if value \<le> alpha then Inr (value, Some action)
             else min_loop child rest value (Some action) alpha value)
          else
            (if min_value \<le> alpha then Inr (min_value, best_action)
             else min_loop child rest min_value best_action alpha beta))"

text \<open>
  The depth is a natural number: \<^verbatim>\<open>compute_action\<close> starts the search at a depth of
  1, 2 or 3 and every recursive call passes \<^verbatim>\<open>depth - 1\<close> of a depth that is not 0.
\<close>

definition leaf :: "('s, 'a) game \<Rightarrow> my_player \<Rightarrow> 's \<Rightarrow> error + (val \<times> 'a option)" where
  "leaf g me state =
     (case evaluate_state g me state of
        Inl e \<Rightarrow> Inl e
      | Inr v \<Rightarrow> Inr (Fin v, None))"

definition value_of :: "error + (val \<times> 'a option) \<Rightarrow> error + val" where
  "value_of r = (case r of Inl e \<Rightarrow> Inl e | Inr (value, _) \<Rightarrow> Inr value)"

fun minimax ::
  "('s, 'a) game \<Rightarrow> my_player \<Rightarrow> 's \<Rightarrow> nat \<Rightarrow> val \<Rightarrow> val \<Rightarrow> bool
     \<Rightarrow> error + (val \<times> 'a option)" where
  "minimax g me state 0 alpha beta maximizing_player = leaf g me state"
| "minimax g me state (Suc d) alpha beta maximizing_player =
     (if is_done g state then leaf g me state
      else if maximizing_player then
        max_loop
          (\<lambda>action a b. value_of (minimax g me (apply_action g state action) d a b False))
          (generate_possible_light_actions g state) MInf None alpha beta
      else
        min_loop
          (\<lambda>action a b. value_of (minimax g me (apply_action g state action) d a b True))
          (generate_possible_light_actions g state) PInf None alpha beta)"

subsection \<open>\<^verbatim>\<open>compute_action\<close>\<close>

text \<open>
  The two readings of the clock are inputs of the call, \<open>start_time\<close> before the search
  and \<open>end_time\<close> after it. The call returns its result, a move or the exception raised,
  and the agent after the call. An exception raised inside the search leaves the method
  before the accumulator is updated. \<^verbatim>\<open>None\<close> equals no move, so the membership
  test fails on it.
\<close>

definition compute_action ::
  "('s, 'a) game \<Rightarrow> my_player \<Rightarrow> 's \<Rightarrow> real \<Rightarrow> real \<Rightarrow> real \<Rightarrow> (error + 'a) \<times> my_player" where
  "compute_action g me current_state remaining_time start_time end_time =
     (let remaining_game_time = total_time_budget me - time_used me;
          depth = get_dynamic_depth remaining_game_time
      in case minimax g me current_state depth MInf PInf True of
           Inl e \<Rightarrow> (Inl e, me)
         | Inr (_, action) \<Rightarrow>
             let me' = me\<lparr>time_used := time_used me + (end_time - start_time)\<rparr>
             in (case action of
                   None \<Rightarrow> (Inl MethodNotImplementedError, me')
                 | Some a \<Rightarrow>
                     if a \<in> set (generate_possible_light_actions g current_state)
                     then (Inr a, me')
                     else (Inl MethodNotImplementedError, me')))"

text \<open>
  Python looks \<^verbatim>\<open>self.minimax\<close> up on the object when the call is made, so an
  agent whose search method has been replaced (a subclass, a test double) runs the same
  body with its own search. \<open>compute_action_with search\<close> is that body with the search
  as a parameter; with the agent's own \<open>minimax\<close> it is \<open>compute_action\<close>.
\<close>

definition compute_action_with ::
  "('s \<Rightarrow> nat \<Rightarrow> val \<Rightarrow> val \<Rightarrow> bool \<Rightarrow> error + (val \<times> 'a option))
     \<Rightarrow> ('s, 'a) game \<Rightarrow> my_player \<Rightarrow> 's \<Rightarrow> real \<Rightarrow> real \<Rightarrow> real
     \<Rightarrow> (error + 'a) \<times> my_player" where
  "compute_action_with search g me current_state remaining_time start_time end_time =
     (let remaining_game_time = total_time_budget me - time_used me;
          depth = get_dynamic_depth remaining_game_time
      in case search current_state depth MInf PInf True of
           Inl e \<Rightarrow> (Inl e, me)
         | Inr (_, action) \<Rightarrow>
             let me' = me\<lparr>time_used := time_used me + (end_time - start_time)\<rparr>
             in (case action of
                   None \<Rightarrow> (Inl MethodNotImplementedError, me')
                 | Some a \<Rightarrow>
                     if a \<in> set (generate_possible_light_actions g current_state)
                     then (Inr a, me')
                     else (Inl MethodNotImplementedError, me')))"

section \<open>Notions used to state the properties\<close>

text \<open>The depth that \<^verbatim>\<open>compute_action\<close> hands to the search.\<close>

definition search_depth :: "my_player \<Rightarrow> nat" where
  "search_depth me = get_dynamic_depth (total_time_budget me - time_used me)"

text \<open>
  A cell counts for a player when it is on the playable board, holds a piece, the piece is
  owned by that player, and the rules engine's formation check holds at the cell.
\<close>

definition formation_cell :: "('s, 'a) game \<Rightarrow> 's \<Rightarrow> int \<Rightarrow> nat \<times> nat \<Rightarrow> bool" where
  "formation_cell g state player_id cell =
     (in_board g state cell
      \<and> (\<exists>piece. get_env g state cell = Some piece \<and> owner_id piece = player_id)
      \<and> check_divercite g state cell)"

text \<open>
  The host calls \<^verbatim>\<open>compute_action\<close> once per turn, one call after the other, on
  the same agent object; each call comes with its state, its remaining-time argument and
  its two clock readings.
\<close>

fun sequential_calls ::
  "('s, 'a) game \<Rightarrow> my_player \<Rightarrow> ('s \<times> real \<times> real \<times> real) list \<Rightarrow> my_player" where
  "sequential_calls g me [] = me"
| "sequential_calls g me ((state, remaining_time, start_time, end_time) # rest) =
     sequential_calls g
       (snd (compute_action g me state remaining_time start_time end_time)) rest"

subsection \<open>Two small games\<close>

text \<open>
  A game of two plies with two moves at each node; a state is the list of the moves played.
  Player 1 owns a formation at the cell \<open>(0, 0)\<close>, player 2 owns a piece at \<open>(1, 1)\<close>
  that forms nothing.
\<close>

definition leaf_score :: "nat list \<Rightarrow> int" where
  "leaf_score path =
     (if path = [0, 0] then 3 else if path = [0, 1] then 5
      else if path = [1, 0] then 2 else if path = [1, 1] then 9 else 0)"

definition demo :: "(nat list, nat) game" where
  "demo = \<lparr>
     is_done = (\<lambda>path. length path \<ge> 2),
     generate_possible_light_actions = (\<lambda>path. if length path < 2 then [0, 1] else []),
     apply_action = (\<lambda>path a. path @ [a]),
     scores = (\<lambda>path. [1 \<mapsto> leaf_score path, 2 \<mapsto> 0]),
     players = (\<lambda>path. [1, 2]),
     get_dimensions = (\<lambda>path. (2, 2)),
     get_env = (\<lambda>path. [(0, 0) \<mapsto> \<lparr>owner_id = 1\<rparr>, (1, 1) \<mapsto> \<lparr>owner_id = 2\<rparr>]),
     in_board = (\<lambda>path c. True),
     check_divercite = (\<lambda>path c. c = (0, 0))\<rparr>"

text \<open>
  A game that is never finished and runs out of moves: one move at the states 0 and 1, none
  from the state 2 on. Its board is empty.
\<close>

definition stuck :: "(nat, unit) game" where
  "stuck = \<lparr>
     is_done = (\<lambda>n. False),
     generate_possible_light_actions = (\<lambda>n. if n < 2 then [()] else []),
     apply_action = (\<lambda>n a. Suc n),
     scores = (\<lambda>n. [1 \<mapsto> 0, 2 \<mapsto> 0]),
     players = (\<lambda>n. [1, 2]),
     get_dimensions = (\<lambda>n. (2, 2)),
     get_env = (\<lambda>n. Map.empty),
     in_board = (\<lambda>n c. True),
     check_divercite = (\<lambda>n c. True)\<rparr>"

text \<open>
  The first game with an empty score dictionary, so that every evaluation raises, and a
  search that answers a move the first game never generates.
\<close>

definition unscored :: "(nat list, nat) game" where
  "unscored = demo\<lparr>scores := (\<lambda>path. Map.empty)\<rparr>"

definition stub_search ::
  "nat list \<Rightarrow> nat \<Rightarrow> val \<Rightarrow> val \<Rightarrow> bool \<Rightarrow> error + (val \<times> nat option)" where
  "stub_search state depth alpha beta maximizing_player = Inr (Fin 0, Some 7)"

subsection \<open>Exhaustive minimax\<close>

text \<open>
  Depth-limited minimax with no window and no cutoff: every move of a node is explored, the
  maximizing player keeps the largest value and the minimizing player the smallest,
  starting from the same two infinities; the cutoff nodes are those of the search.
\<close>

fun max_all :: "('a \<Rightarrow> error + val) \<Rightarrow> 'a list \<Rightarrow> val \<Rightarrow> error + val" where
  "max_all child [] max_value = Inr max_value"
| "max_all child (action # rest) max_value =
     (case child action of
        Inl e \<Rightarrow> Inl e
      | Inr value \<Rightarrow> max_all child rest (if value > max_value then value else max_value))"

fun min_all :: "('a \<Rightarrow> error + val) \<Rightarrow> 'a list \<Rightarrow> val \<Rightarrow> error + val" where
  "min_all child [] min_value = Inr min_value"
| "min_all child (action # rest) min_value =
     (case child action of
        Inl e \<Rightarrow> Inl e
      | Inr value \<Rightarrow> min_all child rest (if value < min_value then value else min_value))"

fun exhaustive_minimax :: "('s, 'a) game \<Rightarrow> my_player \<Rightarrow> 's \<Rightarrow> nat \<Rightarrow> bool \<Rightarrow> error + val" where
  "exhaustive_minimax g me state 0 maximizing_player = value_of (leaf g me state)"
| "exhaustive_minimax g me state (Suc d) maximizing_player =
     (if is_done g state then value_of (leaf g me state)
      else if maximizing_player then
        max_all (\<lambda>action. exhaustive_minimax g me (apply_action g state action) d False)
          (generate_possible_light_actions g state) MInf
      else
        min_all (\<lambda>action. exhaustive_minimax g me (apply_action g state action) d True)
          (generate_possible_light_actions g state) PInf)"

text \<open>
  What a value \<open>v\<close> returned for the window \<open>(alpha, beta)\<close> tells about the exact
  value: an upper bound at or below \<open>alpha\<close>, a lower bound at or above \<open>beta\<close>, the
  exact value strictly inside.
\<close>

definition fits :: "val \<Rightarrow> val \<Rightarrow> val \<Rightarrow> val \<Rightarrow> bool" where
  "fits alpha beta exact v =
     ((v \<le> alpha \<longrightarrow> exact \<le> v) \<and> (beta \<le> v \<longrightarrow> v \<le> exact)
      \<and> (alpha < v \<and> v < beta \<longrightarrow> v = exact))"

subsection \<open>The values a node's loop receives\<close>

text \<open>
  The values returned by the recursive calls of one run of a loop of \<^verbatim>\<open>minimax\<close>,
  in the order of the moves: the \<open>i\<close>-th value is the one received for the \<open>i\<close>-th move,
  with the window that the loop holds at that moment. The list ends where the loop ends, at
  the last move or at the cutoff.
\<close>

fun max_values ::
  "('a \<Rightarrow> val \<Rightarrow> val \<Rightarrow> error + val) \<Rightarrow> 'a list \<Rightarrow> val \<Rightarrow> val \<Rightarrow> val \<Rightarrow> val list" where
  "max_values child [] max_value alpha beta = []"
| "max_values child (action # rest) max_value alpha beta =
     (case child action alpha beta of
        Inl e \<Rightarrow> []
      | Inr value \<Rightarrow>
          value #
          (if value > max_value then
             (if value \<ge> beta then [] else max_values child rest value value beta)
           else
             (if max_value \<ge> beta then [] else max_values child rest max_value alpha beta)))"

fun min_values ::
  "('a \<Rightarrow> val \<Rightarrow> val \<Rightarrow> error + val) \<Rightarrow> 'a list \<Rightarrow> val \<Rightarrow> val \<Rightarrow> val \<Rightarrow> val list" where
  "min_values child [] min_value alpha beta = []"
| "min_values child (action # rest) min_value alpha beta =
     (case child action alpha beta of
        Inl e \<Rightarrow> []
      | Inr value \<Rightarrow>
          value #
          (if value < min_value then
             (if value \<le> alpha then [] else min_values child rest value alpha value)
           else
             (if min_value \<le> alpha then [] else min_values child rest min_value alpha beta)))"

text \<open>
  The values received at the node \<open>state\<close> when it is searched with \<open>d\<close> plies left
  below it.
\<close>

definition explored_values ::
  "('s, 'a) game \<Rightarrow> my_player \<Rightarrow> 's \<Rightarrow> nat \<Rightarrow> val \<Rightarrow> val \<Rightarrow> bool \<Rightarrow> val list" where
  "explored_values g me state d alpha beta maximizing_player =
     (if maximizing_player then
        max_values
          (\<lambda>action a b. value_of (minimax g me (apply_action g state action) d a b False))
          (generate_possible_light_actions g state) MInf alpha beta
      else
        min_values
          (\<lambda>action a b. value_of (minimax g me (apply_action g state action) d a b True))
          (generate_possible_light_actions g state) PInf alpha beta)"

section \<open>Auxiliary facts\<close>

subsection \<open>The formation counter as a count of cells\<close>

lemma count_cell_eq:
  "count_cell g state p i j count =
     count + (if formation_cell g state p (i, j) then 1 else 0)"
  by (auto simp: count_cell_def formation_cell_def split: option.splits)

lemma fold_count_row:
  "fold (\<lambda>j count. count_cell g state p i j count) js count =
     count + int (length (filter (\<lambda>j. formation_cell g state p (i, j)) js))"
  by (induction js arbitrary: count) (simp_all add: count_cell_eq)

lemma fold_count_rows:
  "fold (\<lambda>i count. fold (\<lambda>j count. count_cell g state p i j count) js count) rows count =
     count + int (length (filter (formation_cell g state p) (List.product rows js)))"
  by (induction rows arbitrary: count) (simp_all add: fold_count_row filter_map comp_def)

lemma count_divercite_potential_length:
  "count_divercite_potential g state p =
     int (length (filter (formation_cell g state p)
       (List.product [0 ..< fst (get_dimensions g state)] [0 ..< snd (get_dimensions g state)])))"
  by (simp add: count_divercite_potential_def fold_count_rows)

lemma card_filter_product:
  "card {(i, j). i < r \<and> j < c \<and> P (i, j)} = length (filter P (List.product [0 ..< r] [0 ..< c]))"
proof -
  have cells: "{(i, j). i < r \<and> j < c \<and> P (i, j)} = set (filter P (List.product [0 ..< r] [0 ..< c]))"
    by auto
  have "distinct (filter P (List.product [0 ..< r] [0 ..< c]))"
    by (simp add: distinct_product)
  then have "card (set (filter P (List.product [0 ..< r] [0 ..< c])))
      = length (filter P (List.product [0 ..< r] [0 ..< c]))"
    by (rule distinct_card)
  then show ?thesis
    by (simp only: cells)
qed

subsection \<open>The opponent, the depth and the agent's id\<close>

lemma first_other_id_Some:
  "first_other_id pid ids = Some other \<Longrightarrow> other \<noteq> pid \<and> other \<in> set ids"
  by (induction ids) (auto split: if_splits)

lemma get_dynamic_depth_positive: "\<exists>d. get_dynamic_depth t = Suc d"
  by (simp add: get_dynamic_depth_def numeral_3_eq_3 numeral_2_eq_2)

lemma evaluate_state_id:
  "get_id me' = get_id me \<Longrightarrow> evaluate_state g me' state = evaluate_state g me state"
  by (simp add: evaluate_state_def get_opponent_id_def cong: option.case_cong)

subsection \<open>The search returns when every evaluation does\<close>

lemma max_loop_returns:
  "(\<And>action a b. action \<in> set actions \<Longrightarrow> \<exists>v. child action a b = Inr v) \<Longrightarrow>
     \<exists>v m. max_loop child actions max_value best_action alpha beta = Inr (v, m)"
proof (induction actions arbitrary: max_value best_action alpha)
  case Nil
  show ?case by simp
next
  case (Cons action rest)
  obtain v where v: "child action alpha beta = Inr v"
    using Cons.prems [of action alpha beta] by auto
  have rest: "\<exists>v m. max_loop child rest mv ba al beta = Inr (v, m)" for mv ba al
    using Cons.IH [of mv ba al] Cons.prems by simp
  show ?case
    using rest by (simp add: v)
qed

lemma min_loop_returns:
  "(\<And>action a b. action \<in> set actions \<Longrightarrow> \<exists>v. child action a b = Inr v) \<Longrightarrow>
     \<exists>v m. min_loop child actions min_value best_action alpha beta = Inr (v, m)"
proof (induction actions arbitrary: min_value best_action beta)
  case Nil
  show ?case by simp
next
  case (Cons action rest)
  obtain v where v: "child action alpha beta = Inr v"
    using Cons.prems [of action alpha beta] by auto
  have rest: "\<exists>v m. min_loop child rest mv ba alpha be = Inr (v, m)" for mv ba be
    using Cons.IH [of mv ba be] Cons.prems by simp
  show ?case
    using rest by (simp add: v)
qed

lemma minimax_returns:
  assumes "\<forall>state. \<exists>x. evaluate_state g me state = Inr x"
  shows "\<exists>v m. minimax g me state depth alpha beta mp = Inr (v, m)"
proof (induction depth arbitrary: state alpha beta mp)
  case 0
  obtain x where "evaluate_state g me state = Inr x"
    using assms by blast
  then show ?case by (simp add: leaf_def)
next
  case (Suc d)
  obtain x where x: "evaluate_state g me state = Inr x"
    using assms by blast
  have child: "\<exists>v. value_of (minimax g me s d a b p) = Inr v" for s a b p
    using Suc.IH [of s a b p] by (auto simp: value_of_def)
  show ?case
    using max_loop_returns [of "generate_possible_light_actions g state"
        "\<lambda>action a b. value_of (minimax g me (apply_action g state action) d a b False)"
        MInf None alpha beta]
      min_loop_returns [of "generate_possible_light_actions g state"
        "\<lambda>action a b. value_of (minimax g me (apply_action g state action) d a b True)"
        PInf None alpha beta]
      child
    by (simp add: leaf_def x)
qed

subsection \<open>The three ways out of \<^verbatim>\<open>compute_action\<close>\<close>

lemma compute_action_raised:
  "minimax g me state (search_depth me) MInf PInf True = Inl e \<Longrightarrow>
     compute_action g me state remaining_time start_time end_time = (Inl e, me)"
  by (simp add: compute_action_def search_depth_def)

lemma compute_action_None:
  "minimax g me state (search_depth me) MInf PInf True = Inr (v, None) \<Longrightarrow>
     compute_action g me state remaining_time start_time end_time =
       (Inl MethodNotImplementedError,
        me\<lparr>time_used := time_used me + (end_time - start_time)\<rparr>)"
  by (simp add: compute_action_def search_depth_def)

lemma compute_action_Some:
  "minimax g me state (search_depth me) MInf PInf True = Inr (v, Some a) \<Longrightarrow>
     compute_action g me state remaining_time start_time end_time =
       (if a \<in> set (generate_possible_light_actions g state) then Inr a
        else Inl MethodNotImplementedError,
        me\<lparr>time_used := time_used me + (end_time - start_time)\<rparr>)"
  by (simp add: compute_action_def search_depth_def)

lemma compute_action_with_minimax:
  "compute_action_with (minimax g me) g me state remaining_time start_time end_time
     = compute_action g me state remaining_time start_time end_time"
  by (simp add: compute_action_def compute_action_with_def)

lemma compute_action_with_None:
  "search state (search_depth me) MInf PInf True = Inr (v, None) \<Longrightarrow>
     compute_action_with search g me state remaining_time start_time end_time =
       (Inl MethodNotImplementedError,
        me\<lparr>time_used := time_used me + (end_time - start_time)\<rparr>)"
  by (simp add: compute_action_with_def search_depth_def)

lemma compute_action_with_Some:
  "search state (search_depth me) MInf PInf True = Inr (v, Some a) \<Longrightarrow>
     compute_action_with search g me state remaining_time start_time end_time =
       (if a \<in> set (generate_possible_light_actions g state) then Inr a
        else Inl MethodNotImplementedError,
        me\<lparr>time_used := time_used me + (end_time - start_time)\<rparr>)"
  by (simp add: compute_action_with_def search_depth_def)

lemma compute_action_snd:
  "snd (compute_action g me state remaining_time start_time end_time) =
     (case minimax g me state (search_depth me) MInf PInf True of
        Inl e \<Rightarrow> me
      | Inr r \<Rightarrow> me\<lparr>time_used := time_used me + (end_time - start_time)\<rparr>)"
proof (cases "minimax g me state (search_depth me) MInf PInf True")
  case (Inl e)
  then show ?thesis
    by (simp add: compute_action_raised)
next
  case (Inr r)
  obtain v action where r: "r = (v, action)"
    by (cases r)
  show ?thesis
    using Inr r by (cases action) (simp_all add: compute_action_None compute_action_Some)
qed

lemma sequential_calls_budget:
  "total_time_budget (sequential_calls g me calls) = total_time_budget me"
proof (induction calls arbitrary: me)
  case Nil
  show ?case by simp
next
  case (Cons call rest)
  obtain state remaining_time start_time end_time
    where call: "call = (state, remaining_time, start_time, end_time)"
    by (cases call) auto
  have "total_time_budget (snd (compute_action g me state remaining_time start_time end_time))
          = total_time_budget me"
    by (simp add: compute_action_snd split: sum.splits)
  then show ?case
    using Cons.IH by (simp add: call)
qed

lemma sequential_calls_monotone:
  "\<forall>(state, remaining_time, start_time, end_time) \<in> set calls. start_time \<le> end_time \<Longrightarrow>
     time_used me \<le> time_used (sequential_calls g me calls)"
proof (induction calls arbitrary: me)
  case Nil
  show ?case by simp
next
  case (Cons call rest)
  obtain state remaining_time start_time end_time
    where call: "call = (state, remaining_time, start_time, end_time)"
    by (cases call) auto
  have le: "start_time \<le> end_time"
    using Cons.prems by (simp add: call)
  have step: "time_used me
      \<le> time_used (snd (compute_action g me state remaining_time start_time end_time))"
    using le by (simp add: compute_action_snd split: sum.splits)
  have "time_used (snd (compute_action g me state remaining_time start_time end_time))
      \<le> time_used (sequential_calls g
            (snd (compute_action g me state remaining_time start_time end_time)) rest)"
    using Cons.IH Cons.prems by simp
  with step show ?case
    by (simp add: call)
qed

lemma compute_action_time_used:
  assumes "\<forall>state. \<exists>x. evaluate_state g me state = Inr x"
  shows "snd (compute_action g me state remaining_time start_time end_time)
           = me\<lparr>time_used := time_used me + (end_time - start_time)\<rparr>"
proof -
  obtain v m where r: "minimax g me state (search_depth me) MInf PInf True = Inr (v, m)"
    using minimax_returns [OF assms] by blast
  show ?thesis
    using r by (cases m) (simp_all add: compute_action_None compute_action_Some)
qed

lemma sequential_calls_sum:
  assumes "\<forall>state. \<exists>x. evaluate_state g me state = Inr x"
  shows "time_used (sequential_calls g me calls)
           = time_used me + (\<Sum>(state, remaining_time, start_time, end_time) \<leftarrow> calls.
                               end_time - start_time)"
  using assms
proof (induction calls arbitrary: me)
  case Nil
  show ?case by simp
next
  case (Cons call rest)
  obtain state remaining_time start_time end_time
    where call: "call = (state, remaining_time, start_time, end_time)"
    by (cases call) auto
  let ?me' = "me\<lparr>time_used := time_used me + (end_time - start_time)\<rparr>"
  have step: "snd (compute_action g me state remaining_time start_time end_time) = ?me'"
    using compute_action_time_used [OF Cons.prems] .
  have "\<forall>state. \<exists>x. evaluate_state g ?me' state = Inr x"
    using Cons.prems evaluate_state_id [of ?me' me g] by simp
  from Cons.IH [OF this] show ?case
    by (simp add: call step)
qed

subsection \<open>The two small games, evaluated\<close>

lemma demo_is_done: "is_done demo path = (length path \<ge> 2)"
  by (simp add: demo_def)

lemma demo_actions:
  "generate_possible_light_actions demo path = (if length path < 2 then [0, 1] else [])"
  by (simp add: demo_def)

lemma demo_scores: "scores demo path = [1 \<mapsto> leaf_score path, 2 \<mapsto> 0]"
  by (simp add: demo_def)

lemma demo_players: "players demo path = [1, 2]"
  by (simp add: demo_def)

lemma demo_count_1: "count_divercite_potential demo path 1 = 1"
  by (simp add: count_divercite_potential_def demo_def count_cell_def upt_rec)

lemma demo_count_2: "count_divercite_potential demo path 2 = 0"
  by (simp add: count_divercite_potential_def demo_def count_cell_def upt_rec)

lemma get_id_init: "get_id (init pid) = pid"
  by (simp add: init_def)

lemma time_used_init: "time_used (init pid) = 0"
  by (simp add: init_def)

lemma demo_opponent: "get_opponent_id demo (init 1) path = Some 2"
  by (simp add: get_opponent_id_def init_def demo_players)

lemma demo_evaluate: "evaluate_state demo (init 1) path = Inr (leaf_score path + 5)"
  by (simp add: evaluate_state_def demo_opponent demo_scores demo_count_1 demo_count_2 get_id_init)

lemma search_depth_init: "search_depth (init pid) = 3"
  by (simp add: search_depth_def init_def get_dynamic_depth_def)

lemma demo_search: "minimax demo (init 1) [] 3 MInf PInf True = Inr (Fin 8, Some 0)"
  by code_simp

lemma demo_search_done: "minimax demo (init 1) [0, 0] 3 MInf PInf True = Inr (Fin 8, None)"
  by code_simp

lemma stuck_fields:
  "is_done stuck n = False"
  "generate_possible_light_actions stuck n = (if n < 2 then [()] else [])"
  "get_env stuck n = Map.empty"
  by (simp_all add: stuck_def)

lemma stuck_search: "minimax stuck (init 1) 0 3 MInf PInf True = Inr (MInf, None)"
  by code_simp

lemma unscored_search: "minimax unscored (init 1) [] 3 MInf PInf True = Inl KeyError"
  by code_simp

lemma stub_search_illegal: "7 \<notin> set (generate_possible_light_actions demo [])"
  by (simp add: demo_actions)

subsection \<open>Pruning keeps the value inside the window\<close>

lemma max_all_returns:
  "(\<And>action. action \<in> set actions \<Longrightarrow> \<exists>v. child action = Inr v) \<Longrightarrow>
     \<exists>v. max_all child actions max_value = Inr v"
proof (induction actions arbitrary: max_value)
  case Nil
  show ?case by simp
next
  case (Cons action rest)
  obtain v where v: "child action = Inr v"
    using Cons.prems [of action] by auto
  have "\<exists>w. max_all child rest (if v > max_value then v else max_value) = Inr w"
    using Cons.IH Cons.prems by simp
  then show ?case
    by (simp add: v)
qed

lemma min_all_returns:
  "(\<And>action. action \<in> set actions \<Longrightarrow> \<exists>v. child action = Inr v) \<Longrightarrow>
     \<exists>v. min_all child actions min_value = Inr v"
proof (induction actions arbitrary: min_value)
  case Nil
  show ?case by simp
next
  case (Cons action rest)
  obtain v where v: "child action = Inr v"
    using Cons.prems [of action] by auto
  have "\<exists>w. min_all child rest (if v < min_value then v else min_value) = Inr w"
    using Cons.IH Cons.prems by simp
  then show ?case
    by (simp add: v)
qed

lemma exhaustive_minimax_returns:
  assumes "\<forall>state. \<exists>x. evaluate_state g me state = Inr x"
  shows "\<exists>v. exhaustive_minimax g me state depth mp = Inr v"
proof (induction depth arbitrary: state mp)
  case 0
  obtain x where "evaluate_state g me state = Inr x"
    using assms by blast
  then show ?case by (simp add: leaf_def value_of_def)
next
  case (Suc d)
  obtain x where x: "evaluate_state g me state = Inr x"
    using assms by blast
  show ?case
    using max_all_returns [of "generate_possible_light_actions g state"
        "\<lambda>action. exhaustive_minimax g me (apply_action g state action) d False" MInf]
      min_all_returns [of "generate_possible_light_actions g state"
        "\<lambda>action. exhaustive_minimax g me (apply_action g state action) d True" PInf]
      Suc.IH
    by (simp add: leaf_def value_of_def x)
qed

lemma max_all_ge: "max_all ex acts M = Inr X \<Longrightarrow> M \<le> X"
proof (induction acts arbitrary: M)
  case Nil
  then show ?case by simp
next
  case (Cons a rest)
  then obtain x where x: "ex a = Inr x"
    and rest: "max_all ex rest (if x > M then x else M) = Inr X"
    by (auto split: sum.splits)
  have "(if x > M then x else M) \<le> X"
    using Cons.IH [OF rest] .
  then show ?case
    by (auto split: if_splits)
qed

lemma min_all_le: "min_all ex acts M = Inr X \<Longrightarrow> X \<le> M"
proof (induction acts arbitrary: M)
  case Nil
  then show ?case by simp
next
  case (Cons a rest)
  then obtain x where x: "ex a = Inr x"
    and rest: "min_all ex rest (if x < M then x else M) = Inr X"
    by (auto split: sum.splits)
  have "X \<le> (if x < M then x else M)"
    using Cons.IH [OF rest] .
  then show ?case
    by (auto split: if_splits)
qed

lemma max_loop_fits:
  assumes "max_all ex acts M = Inr X"
    and "\<And>a x al be. a \<in> set acts \<Longrightarrow> ex a = Inr x \<Longrightarrow> al < be \<Longrightarrow>
           \<exists>v. child a al be = Inr v \<and> fits al be x v"
    and "M \<le> m" and "m < beta" and "alpha < beta" and "alpha0 < beta"
    and "alpha \<le> m \<or> alpha \<le> alpha0" and "alpha0 < m \<longrightarrow> M = m"
  shows "\<exists>v b. max_loop child acts m ba alpha beta = Inr (v, b) \<and> fits alpha0 beta X v"
  using assms
proof (induction acts arbitrary: M m ba alpha)
  case Nil
  then show ?case
    by (auto simp: fits_def)
next
  case (Cons a rest)
  from Cons.prems(1) obtain x where x: "ex a = Inr x"
    and rest: "max_all ex rest (if x > M then x else M) = Inr X"
    by (auto split: sum.splits)
  obtain v where v: "child a alpha beta = Inr v" and fv: "fits alpha beta x v"
    using Cons.prems(2) [of a x alpha beta] x Cons.prems(5) by auto
  have kids: "\<And>a x al be. a \<in> set rest \<Longrightarrow> ex a = Inr x \<Longrightarrow> al < be \<Longrightarrow>
           \<exists>v. child a al be = Inr v \<and> fits al be x v"
    using Cons.prems(2) by simp
  have X: "(if x > M then x else M) \<le> X"
    using max_all_ge [OF rest] .
  show ?case
  proof (cases "v > m")
    case True
    show ?thesis
    proof (cases "v \<ge> beta")
      case True
      have "v \<le> x"
        using fv True by (simp add: fits_def)
      then have "v \<le> X"
        using X by (auto split: if_splits)
      then have "fits alpha0 beta X v"
        using True Cons.prems(6) by (auto simp: fits_def)
      then show ?thesis
        using \<open>v > m\<close> True by (simp add: v)
    next
      case False
      have xv: "x \<le> v"
        using fv False by (auto simp: fits_def)
      have exact: "alpha0 < v \<longrightarrow> x = v"
        using fv False True Cons.prems(7) by (auto simp: fits_def)
      have "\<exists>w b. max_loop child rest v (Some a) v beta = Inr (w, b) \<and> fits alpha0 beta X w"
      proof (rule Cons.IH [OF rest kids])
        show "(if x > M then x else M) \<le> v"
          using xv True Cons.prems(3) by auto
        show "v < beta" using False by simp
        show "v < beta" using False by simp
        show "alpha0 < beta" using Cons.prems(6) .
        show "v \<le> v \<or> v \<le> alpha0" by simp
        show "alpha0 < v \<longrightarrow> (if x > M then x else M) = v"
          using exact True Cons.prems(3) by auto
      qed
      then show ?thesis
        using True False by (simp add: v)
    qed
  next
    case False
    have xm: "x \<le> m"
      using fv False Cons.prems(4) by (auto simp: fits_def)
    have "\<exists>w b. max_loop child rest m ba alpha beta = Inr (w, b) \<and> fits alpha0 beta X w"
    proof (rule Cons.IH [OF rest kids])
      show "(if x > M then x else M) \<le> m"
        using xm Cons.prems(3) by auto
      show "m < beta" using Cons.prems(4) .
      show "alpha < beta" using Cons.prems(5) .
      show "alpha0 < beta" using Cons.prems(6) .
      show "alpha \<le> m \<or> alpha \<le> alpha0" using Cons.prems(7) .
      show "alpha0 < m \<longrightarrow> (if x > M then x else M) = m"
        using xm Cons.prems(8) by auto
    qed
    moreover have "\<not> beta \<le> m"
      using Cons.prems(4) by simp
    ultimately show ?thesis
      using False by (simp add: v)
  qed
qed

lemma min_loop_fits:
  assumes "min_all ex acts M = Inr X"
    and "\<And>a x al be. a \<in> set acts \<Longrightarrow> ex a = Inr x \<Longrightarrow> al < be \<Longrightarrow>
           \<exists>v. child a al be = Inr v \<and> fits al be x v"
    and "m \<le> M" and "alpha < m" and "alpha < beta" and "alpha < beta0"
    and "m \<le> beta \<or> beta0 \<le> beta" and "m < beta0 \<longrightarrow> M = m"
  shows "\<exists>v b. min_loop child acts m ba alpha beta = Inr (v, b) \<and> fits alpha beta0 X v"
  using assms
proof (induction acts arbitrary: M m ba beta)
  case Nil
  then show ?case
    by (auto simp: fits_def)
next
  case (Cons a rest)
  from Cons.prems(1) obtain x where x: "ex a = Inr x"
    and rest: "min_all ex rest (if x < M then x else M) = Inr X"
    by (auto split: sum.splits)
  obtain v where v: "child a alpha beta = Inr v" and fv: "fits alpha beta x v"
    using Cons.prems(2) [of a x alpha beta] x Cons.prems(5) by auto
  have kids: "\<And>a x al be. a \<in> set rest \<Longrightarrow> ex a = Inr x \<Longrightarrow> al < be \<Longrightarrow>
           \<exists>v. child a al be = Inr v \<and> fits al be x v"
    using Cons.prems(2) by simp
  have X: "X \<le> (if x < M then x else M)"
    using min_all_le [OF rest] .
  show ?case
  proof (cases "v < m")
    case True
    show ?thesis
    proof (cases "v \<le> alpha")
      case True
      have "x \<le> v"
        using fv True by (simp add: fits_def)
      then have "X \<le> v"
        using X by (auto split: if_splits)
      then have "fits alpha beta0 X v"
        using True Cons.prems(6) by (auto simp: fits_def)
      then show ?thesis
        using \<open>v < m\<close> True by (simp add: v)
    next
      case False
      have vx: "v \<le> x"
        using fv False by (auto simp: fits_def)
      have exact: "v < beta0 \<longrightarrow> x = v"
        using fv False True Cons.prems(7) by (auto simp: fits_def)
      have "\<exists>w b. min_loop child rest v (Some a) alpha v = Inr (w, b) \<and> fits alpha beta0 X w"
      proof (rule Cons.IH [OF rest kids])
        show "v \<le> (if x < M then x else M)"
          using vx True Cons.prems(3) by auto
        show "alpha < v" using False by simp
        show "alpha < v" using False by simp
        show "alpha < beta0" using Cons.prems(6) .
        show "v \<le> v \<or> beta0 \<le> v" by simp
        show "v < beta0 \<longrightarrow> (if x < M then x else M) = v"
          using exact True Cons.prems(3) by auto
      qed
      then show ?thesis
        using True False by (simp add: v)
    qed
  next
    case False
    have mx: "m \<le> x"
      using fv False Cons.prems(4) by (auto simp: fits_def)
    have "\<exists>w b. min_loop child rest m ba alpha beta = Inr (w, b) \<and> fits alpha beta0 X w"
    proof (rule Cons.IH [OF rest kids])
      show "m \<le> (if x < M then x else M)"
        using mx Cons.prems(3) by auto
      show "alpha < m" using Cons.prems(4) .
      show "alpha < beta" using Cons.prems(5) .
      show "alpha < beta0" using Cons.prems(6) .
      show "m \<le> beta \<or> beta0 \<le> beta" using Cons.prems(7) .
      show "m < beta0 \<longrightarrow> (if x < M then x else M) = m"
        using mx Cons.prems(8) by auto
    qed
    moreover have "\<not> m \<le> alpha"
      using Cons.prems(4) by simp
    ultimately show ?thesis
      using False by (simp add: v)
  qed
qed

lemma below_PInf: "alpha < (beta::val) \<Longrightarrow> alpha < PInf"
  by (cases alpha; cases beta) (simp_all add: less_val_def)

lemma above_MInf: "alpha < (beta::val) \<Longrightarrow> MInf < beta"
  by (cases alpha; cases beta) (simp_all add: less_val_def)

lemma minimax_fits:
  "exhaustive_minimax g me state depth mp = Inr x \<Longrightarrow> alpha < beta \<Longrightarrow>
     \<exists>v m. minimax g me state depth alpha beta mp = Inr (v, m) \<and> fits alpha beta x v"
proof (induction depth arbitrary: state mp x alpha beta)
  case 0
  then show ?case
    by (auto simp: leaf_def value_of_def fits_def split: sum.splits)
next
  case (Suc d)
  show ?case
  proof (cases "is_done g state")
    case True
    with Suc.prems show ?thesis
      by (auto simp: leaf_def value_of_def fits_def split: sum.splits)
  next
    case False
    have kids: "\<exists>v. value_of (minimax g me (apply_action g state a) d al be p) = Inr v
                 \<and> fits al be y v"
      if "exhaustive_minimax g me (apply_action g state a) d p = Inr y" "al < be"
      for a y al be p
      using Suc.IH [OF that] by (auto simp: value_of_def)
    show ?thesis
    proof (cases mp)
      case True
      have ex: "max_all (\<lambda>action. exhaustive_minimax g me (apply_action g state action) d False)
                  (generate_possible_light_actions g state) MInf = Inr x"
        using Suc.prems(1) False True by simp
      have "\<exists>v b. max_loop
              (\<lambda>action a b. value_of (minimax g me (apply_action g state action) d a b False))
              (generate_possible_light_actions g state) MInf None alpha beta = Inr (v, b)
            \<and> fits alpha beta x v"
      proof (rule max_loop_fits [OF ex])
        show "MInf \<le> MInf" by simp
        show "MInf < beta" using above_MInf [OF Suc.prems(2)] .
        show "alpha < beta" using Suc.prems(2) .
        show "alpha < beta" using Suc.prems(2) .
        show "alpha \<le> MInf \<or> alpha \<le> alpha" by simp
        show "alpha < MInf \<longrightarrow> MInf = MInf" by simp
      next
        fix a y al be
        assume "exhaustive_minimax g me (apply_action g state a) d False = Inr y"
          and "al < (be::val)"
        then show "\<exists>v. value_of (minimax g me (apply_action g state a) d al be False) = Inr v
                 \<and> fits al be y v"
          by (rule kids)
      qed
      then show ?thesis
        using False True by simp
    next
      case mn: False
      have ex: "min_all (\<lambda>action. exhaustive_minimax g me (apply_action g state action) d True)
                  (generate_possible_light_actions g state) PInf = Inr x"
        using Suc.prems(1) False mn by simp
      have "\<exists>v b. min_loop
              (\<lambda>action a b. value_of (minimax g me (apply_action g state action) d a b True))
              (generate_possible_light_actions g state) PInf None alpha beta = Inr (v, b)
            \<and> fits alpha beta x v"
      proof (rule min_loop_fits [OF ex])
        show "PInf \<le> PInf" by simp
        show "alpha < PInf" using below_PInf [OF Suc.prems(2)] .
        show "alpha < beta" using Suc.prems(2) .
        show "alpha < beta" using Suc.prems(2) .
        show "PInf \<le> beta \<or> beta \<le> beta" by simp
        show "PInf < beta \<longrightarrow> PInf = PInf" by simp
      next
        fix a y al be
        assume "exhaustive_minimax g me (apply_action g state a) d True = Inr y"
          and "al < (be::val)"
        then show "\<exists>v. value_of (minimax g me (apply_action g state a) d al be True) = Inr v
                 \<and> fits al be y v"
          by (rule kids)
      qed
      then show ?thesis
        using False mn by simp
    qed
  qed
qed

lemma fits_root: "fits MInf PInf x v \<Longrightarrow> v = x"
  by (cases v; cases x) (auto simp: fits_def less_val_def)

subsection \<open>Which move a loop keeps\<close>

lemma max_values_length: "length (max_values child acts m alpha beta) \<le> length acts"
  by (induction acts arbitrary: m alpha) (auto split: sum.splits)

lemma min_values_length: "length (min_values child acts m alpha beta) \<le> length acts"
  by (induction acts arbitrary: m beta) (auto split: sum.splits)

lemma max_loop_first_best:
  "max_loop child acts m ba alpha beta = Inr (v, b) \<Longrightarrow>
     (b = ba \<and> v = m \<and> (\<forall>w \<in> set (max_values child acts m alpha beta). w \<le> m))
     \<or> (\<exists>i < length (max_values child acts m alpha beta).
           b = Some (acts ! i) \<and> max_values child acts m alpha beta ! i = v \<and> m < v
           \<and> (\<forall>j < i. max_values child acts m alpha beta ! j < v))"
proof (induction acts arbitrary: m ba alpha)
  case Nil
  then show ?case by simp
next
  case (Cons a rest)
  from Cons.prems obtain w where w: "child a alpha beta = Inr w"
    by (auto split: sum.splits)
  show ?case
  proof (cases "w > m")
    case True
    show ?thesis
    proof (cases "w \<ge> beta")
      case True
      with \<open>w > m\<close> Cons.prems show ?thesis
        by (simp add: w)
    next
      case False
      let ?vals = "max_values child rest w w beta"
      have vals: "max_values child (a # rest) m alpha beta = w # ?vals"
        using True False by (simp add: w)
      have run: "max_loop child rest w (Some a) w beta = Inr (v, b)"
        using Cons.prems True False by (simp add: w)
      from Cons.IH [OF run] show ?thesis
      proof
        assume "b = Some a \<and> v = w \<and> (\<forall>x \<in> set ?vals. x \<le> w)"
        then have "0 < length (w # ?vals) \<and> b = Some ((a # rest) ! 0)
            \<and> (w # ?vals) ! 0 = v \<and> m < v \<and> (\<forall>j < 0. (w # ?vals) ! j < v)"
          using True by simp
        then show ?thesis
          unfolding vals by blast
      next
        assume "\<exists>i < length ?vals. b = Some (rest ! i) \<and> ?vals ! i = v \<and> w < v
                  \<and> (\<forall>j < i. ?vals ! j < v)"
        then obtain i where i: "i < length ?vals" "b = Some (rest ! i)" "?vals ! i = v"
          "w < v" "\<forall>j < i. ?vals ! j < v"
          by blast
        have "\<forall>j < Suc i. (w # ?vals) ! j < v"
          using i(4,5) by (auto simp: nth_Cons split: nat.splits)
        then have "Suc i < length (w # ?vals) \<and> b = Some ((a # rest) ! Suc i)
            \<and> (w # ?vals) ! Suc i = v \<and> m < v \<and> (\<forall>j < Suc i. (w # ?vals) ! j < v)"
          using i True by auto
        then show ?thesis
          unfolding vals by blast
      qed
    qed
  next
    case False
    show ?thesis
    proof (cases "m \<ge> beta")
      case True
      with False Cons.prems show ?thesis
        by (simp add: w)
    next
      case nb: False
      let ?vals = "max_values child rest m alpha beta"
      have vals: "max_values child (a # rest) m alpha beta = w # ?vals"
        using False nb by (simp add: w)
      have run: "max_loop child rest m ba alpha beta = Inr (v, b)"
        using Cons.prems False nb by (simp add: w)
      from Cons.IH [OF run] show ?thesis
      proof
        assume "b = ba \<and> v = m \<and> (\<forall>x \<in> set ?vals. x \<le> m)"
        then show ?thesis
          unfolding vals using False by auto
      next
        assume "\<exists>i < length ?vals. b = Some (rest ! i) \<and> ?vals ! i = v \<and> m < v
                  \<and> (\<forall>j < i. ?vals ! j < v)"
        then obtain i where i: "i < length ?vals" "b = Some (rest ! i)" "?vals ! i = v"
          "m < v" "\<forall>j < i. ?vals ! j < v"
          by blast
        have "w < v"
          using False i(4) by simp
        then have "\<forall>j < Suc i. (w # ?vals) ! j < v"
          using i(5) by (auto simp: nth_Cons split: nat.splits)
        then have "Suc i < length (w # ?vals) \<and> b = Some ((a # rest) ! Suc i)
            \<and> (w # ?vals) ! Suc i = v \<and> m < v \<and> (\<forall>j < Suc i. (w # ?vals) ! j < v)"
          using i by auto
        then show ?thesis
          unfolding vals by blast
      qed
    qed
  qed
qed

lemma min_loop_first_best:
  "min_loop child acts m ba alpha beta = Inr (v, b) \<Longrightarrow>
     (b = ba \<and> v = m \<and> (\<forall>w \<in> set (min_values child acts m alpha beta). m \<le> w))
     \<or> (\<exists>i < length (min_values child acts m alpha beta).
           b = Some (acts ! i) \<and> min_values child acts m alpha beta ! i = v \<and> v < m
           \<and> (\<forall>j < i. min_values child acts m alpha beta ! j > v))"
proof (induction acts arbitrary: m ba beta)
  case Nil
  then show ?case by simp
next
  case (Cons a rest)
  from Cons.prems obtain w where w: "child a alpha beta = Inr w"
    by (auto split: sum.splits)
  show ?case
  proof (cases "w < m")
    case True
    show ?thesis
    proof (cases "w \<le> alpha")
      case True
      with \<open>w < m\<close> Cons.prems show ?thesis
        by (simp add: w)
    next
      case False
      let ?vals = "min_values child rest w alpha w"
      have vals: "min_values child (a # rest) m alpha beta = w # ?vals"
        using True False by (simp add: w)
      have run: "min_loop child rest w (Some a) alpha w = Inr (v, b)"
        using Cons.prems True False by (simp add: w)
      from Cons.IH [OF run] show ?thesis
      proof
        assume "b = Some a \<and> v = w \<and> (\<forall>x \<in> set ?vals. w \<le> x)"
        then have "0 < length (w # ?vals) \<and> b = Some ((a # rest) ! 0)
            \<and> (w # ?vals) ! 0 = v \<and> v < m \<and> (\<forall>j < 0. (w # ?vals) ! j > v)"
          using True by simp
        then show ?thesis
          unfolding vals by blast
      next
        assume "\<exists>i < length ?vals. b = Some (rest ! i) \<and> ?vals ! i = v \<and> v < w
                  \<and> (\<forall>j < i. ?vals ! j > v)"
        then obtain i where i: "i < length ?vals" "b = Some (rest ! i)" "?vals ! i = v"
          "v < w" "\<forall>j < i. ?vals ! j > v"
          by blast
        have "\<forall>j < Suc i. (w # ?vals) ! j > v"
          using i(4,5) by (auto simp: nth_Cons split: nat.splits)
        then have "Suc i < length (w # ?vals) \<and> b = Some ((a # rest) ! Suc i)
            \<and> (w # ?vals) ! Suc i = v \<and> v < m \<and> (\<forall>j < Suc i. (w # ?vals) ! j > v)"
          using i True by auto
        then show ?thesis
          unfolding vals by blast
      qed
    qed
  next
    case False
    show ?thesis
    proof (cases "m \<le> alpha")
      case True
      with False Cons.prems show ?thesis
        by (simp add: w)
    next
      case nb: False
      let ?vals = "min_values child rest m alpha beta"
      have vals: "min_values child (a # rest) m alpha beta = w # ?vals"
        using False nb by (simp add: w)
      have run: "min_loop child rest m ba alpha beta = Inr (v, b)"
        using Cons.prems False nb by (simp add: w)
      from Cons.IH [OF run] show ?thesis
      proof
        assume "b = ba \<and> v = m \<and> (\<forall>x \<in> set ?vals. m \<le> x)"
        then show ?thesis
          unfolding vals using False by auto
      next
        assume "\<exists>i < length ?vals. b = Some (rest ! i) \<and> ?vals ! i = v \<and> v < m
                  \<and> (\<forall>j < i. ?vals ! j > v)"
        then obtain i where i: "i < length ?vals" "b = Some (rest ! i)" "?vals ! i = v"
          "v < m" "\<forall>j < i. ?vals ! j > v"
          by blast
        have "v < w"
          using False i(4) by simp
        then have "\<forall>j < Suc i. (w # ?vals) ! j > v"
          using i(5) by (auto simp: nth_Cons split: nat.splits)
        then have "Suc i < length (w # ?vals) \<and> b = Some ((a # rest) ! Suc i)
            \<and> (w # ?vals) ! Suc i = v \<and> v < m \<and> (\<forall>j < Suc i. (w # ?vals) ! j > v)"
          using i by auto
        then show ?thesis
          unfolding vals by blast
      qed
    qed
  qed
qed


lemma le_MInf: "w \<le> MInf \<Longrightarrow> w = MInf"
  by (cases w) simp_all

lemma PInf_le: "PInf \<le> w \<Longrightarrow> w = PInf"
  by (cases w) simp_all

lemma demo_exhaustive: "exhaustive_minimax demo (init 1) [] 3 True = Inr (Fin 8)"
  by code_simp

lemma demo_tie: "minimax demo (init 1) [] (Suc 0) MInf PInf True = Inr (Fin 5, Some 0)"
  by code_simp

lemma demo_tie_values: "explored_values demo (init 1) [] 0 MInf PInf True = [Fin 5, Fin 5]"
  by code_simp

lemma stuck_values: "explored_values stuck (init 1) 0 2 MInf PInf True = [MInf]"
  by code_simp

section \<open>The depth scheduler\<close>

text \<open>
  C2. For every remaining time \<open>t\<close> the scheduler answers 3 when \<open>t > 600\<close>, 2 when
  \<open>300 < t \<le> 600\<close> and 1 when \<open>t \<le> 300\<close>; at 601, 600, 301, 300 and 0 it answers
  3, 2, 2, 1 and 1; the answer is always at least 1.
\<close>

theorem get_dynamic_depth_tiers:
  "(t > 600 \<longrightarrow> get_dynamic_depth t = 3)
   \<and> (300 < t \<and> t \<le> 600 \<longrightarrow> get_dynamic_depth t = 2)
   \<and> (t \<le> 300 \<longrightarrow> get_dynamic_depth t = 1)
   \<and> get_dynamic_depth 601 = 3 \<and> get_dynamic_depth 600 = 2 \<and> get_dynamic_depth 301 = 2
   \<and> get_dynamic_depth 300 = 1 \<and> get_dynamic_depth 0 = 1
   \<and> get_dynamic_depth t \<ge> 1"
  by (simp add: get_dynamic_depth_def)

theorem get_dynamic_depth_tiers_witness:
  "(700::real) > 600 \<and> get_dynamic_depth 700 = 3
   \<and> (300::real) < 450 \<and> (450::real) \<le> 600 \<and> get_dynamic_depth 450 = 2
   \<and> (100::real) \<le> 300 \<and> get_dynamic_depth 100 = 1"
  using get_dynamic_depth_tiers [of 700] get_dynamic_depth_tiers [of 450]
    get_dynamic_depth_tiers [of 100]
  by simp

section \<open>The heuristic\<close>

text \<open>
  C4. When the two score look-ups succeed and the scan of the player list finds the
  opponent, the evaluation is the score difference plus 5 times the difference of the two
  formation counts, with no bound applied; the opponent is a player of the list whose id is
  not the agent's.
\<close>

theorem evaluate_state_formula:
  assumes "scores g state (get_id me) = Some player_score"
    and "get_opponent_id g me state = Some opponent"
    and "scores g state opponent = Some opponent_score"
  shows "evaluate_state g me state =
           Inr ((player_score - opponent_score)
                + 5 * (count_divercite_potential g state (get_id me)
                       - count_divercite_potential g state opponent))
         \<and> opponent \<noteq> get_id me \<and> opponent \<in> set (players g state)"
  using assms first_other_id_Some [of "get_id me" "players g state" opponent]
  by (simp add: evaluate_state_def get_opponent_id_def)

theorem evaluate_state_formula_witness:
  "scores demo [0, 0] (get_id (init 1)) = Some 3
   \<and> get_opponent_id demo (init 1) [0, 0] = Some 2
   \<and> scores demo [0, 0] 2 = Some 0
   \<and> evaluate_state demo (init 1) [0, 0] = Inr 8"
proof -
  have s1: "scores demo [0, 0] (get_id (init 1)) = Some 3"
    by (simp add: demo_scores init_def leaf_score_def)
  have op: "get_opponent_id demo (init 1) [0, 0] = Some 2"
    by (rule demo_opponent)
  have s2: "scores demo [0, 0] 2 = Some 0"
    by (simp add: demo_scores)
  show ?thesis
    using evaluate_state_formula [OF s1 op s2] s1 op s2
    by (simp add: demo_count_1 demo_count_2 get_id_init)
qed

text \<open>
  C7. The formation counter answers the number of cells of the board's rectangle that are
  on the playable board, hold a piece owned by the given player and pass the formation
  check; the answer is not negative, it is 0 when the player owns no piece, and 0 when the
  board holds no piece.
\<close>

theorem count_divercite_potential_card:
  "count_divercite_potential g state player_id =
     int (card {(i, j). i < fst (get_dimensions g state) \<and> j < snd (get_dimensions g state)
                  \<and> formation_cell g state player_id (i, j)})
   \<and> 0 \<le> count_divercite_potential g state player_id
   \<and> ((\<forall>cell piece. get_env g state cell = Some piece \<longrightarrow> owner_id piece \<noteq> player_id)
        \<longrightarrow> count_divercite_potential g state player_id = 0)
   \<and> ((\<forall>cell. get_env g state cell = None) \<longrightarrow> count_divercite_potential g state player_id = 0)"
proof -
  have len: "count_divercite_potential g state player_id =
     int (length (filter (formation_cell g state player_id)
       (List.product [0 ..< fst (get_dimensions g state)] [0 ..< snd (get_dimensions g state)])))"
    by (rule count_divercite_potential_length)
  have none: "filter (formation_cell g state player_id) cells = []"
    if "\<forall>cell piece. get_env g state cell = Some piece \<longrightarrow> owner_id piece \<noteq> player_id"
    for cells
    using that by (auto simp: filter_empty_conv formation_cell_def)
  show ?thesis
    using none by (auto simp: len card_filter_product)
qed

theorem count_divercite_potential_card_witness:
  "(\<forall>cell. get_env stuck 0 cell = None) \<and> count_divercite_potential stuck 0 1 = 0
   \<and> \<not> (\<exists>cell piece. get_env demo [] cell = Some piece \<and> owner_id piece = 3)
   \<and> count_divercite_potential demo [] 3 = 0"
proof -
  have empty: "\<forall>cell. get_env stuck 0 cell = None"
    by (simp add: stuck_fields)
  have not_owned: "\<not> (\<exists>cell piece. get_env demo [] cell = Some piece \<and> owner_id piece = 3)"
    by (auto simp: demo_def split: if_splits)
  show ?thesis
    using count_divercite_potential_card [of stuck 0 1]
      count_divercite_potential_card [of demo "[]" 3] empty not_owned
    by blast
qed

section \<open>The search\<close>

text \<open>
  C5. At depth 0, or on a state that reports the game finished, the search answers the
  evaluation of the state together with no move, whatever the window and the player flag
  (and raises what the evaluation raises).
\<close>

theorem minimax_cutoff:
  "depth = 0 \<or> is_done g state \<Longrightarrow>
     minimax g me state depth alpha beta maximizing_player =
       (case evaluate_state g me state of
          Inl e \<Rightarrow> Inl e
        | Inr v \<Rightarrow> Inr (Fin v, None))"
  by (cases depth) (auto simp: leaf_def)

theorem minimax_cutoff_witness:
  "is_done demo [0, 0]
   \<and> minimax demo (init 1) [0, 0] 2 (Fin 1) (Fin 4) False = Inr (Fin 8, None)
   \<and> minimax demo (init 1) [] 0 MInf PInf True = Inr (Fin 5, None)"
proof -
  have fin: "is_done demo [0, 0]"
    by (simp add: demo_is_done)
  have a: "(2::nat) = 0 \<or> is_done demo [0, 0]"
    using fin by simp
  have b: "(0::nat) = 0 \<or> is_done demo []"
    by simp
  show ?thesis
    using minimax_cutoff [OF a, of "init 1" "Fin 1" "Fin 4" False]
      minimax_cutoff [OF b, of "init 1" MInf PInf True] fin
    by (simp add: demo_evaluate leaf_score_def)
qed

text \<open>
  C1. From the root window, minus infinity to plus infinity, with the maximizing player to
  move, the search with pruning returns the value that exhaustive minimax returns on the
  same state at the same depth.
\<close>

theorem alpha_beta_root_value:
  "exhaustive_minimax g me state depth True = Inr x \<Longrightarrow>
     value_of (minimax g me state depth MInf PInf True) = Inr x"
proof -
  assume ex: "exhaustive_minimax g me state depth True = Inr x"
  have "MInf < PInf"
    by (simp add: less_val_def)
  from minimax_fits [OF ex this] obtain v m
    where "minimax g me state depth MInf PInf True = Inr (v, m)" and "fits MInf PInf x v"
    by blast
  then show ?thesis
    using fits_root [of x v] by (simp add: value_of_def)
qed

theorem alpha_beta_root_value_witness:
  "exhaustive_minimax demo (init 1) [] 3 True = Inr (Fin 8)
   \<and> value_of (minimax demo (init 1) [] 3 MInf PInf True) = Inr (Fin 8)"
  using alpha_beta_root_value [OF demo_exhaustive] demo_exhaustive by simp

text \<open>
  C6, as the code has it. At a node that is not a cutoff, a returned move is the earliest
  move of the generator's order whose received value equals the returned best value, and
  every move before it received a strictly worse value. No move is returned exactly when no
  received value improves on the starting infinity, and the best value is then that
  infinity.
\<close>

theorem minimax_tie_break:
  assumes "\<not> is_done g state"
    and "minimax g me state (Suc d) alpha beta mp = Inr (v, best_action)"
  shows "length (explored_values g me state d alpha beta mp)
           \<le> length (generate_possible_light_actions g state)
       \<and> (case best_action of
            None \<Rightarrow>
              v = (if mp then MInf else PInf)
              \<and> (\<forall>w \<in> set (explored_values g me state d alpha beta mp). w = v)
          | Some a \<Rightarrow>
              \<exists>i < length (explored_values g me state d alpha beta mp).
                a = generate_possible_light_actions g state ! i
                \<and> explored_values g me state d alpha beta mp ! i = v
                \<and> (if mp then MInf < v else v < PInf)
                \<and> (\<forall>j < i. if mp then explored_values g me state d alpha beta mp ! j < v
                             else v < explored_values g me state d alpha beta mp ! j))
       \<and> (best_action = None
            \<longleftrightarrow> (\<forall>w \<in> set (explored_values g me state d alpha beta mp).
                   w = (if mp then MInf else PInf)))"
proof (cases mp)
  case True
  let ?child = "\<lambda>action a b. value_of (minimax g me (apply_action g state action) d a b False)"
  let ?acts = "generate_possible_light_actions g state"
  have vals: "explored_values g me state d alpha beta mp = max_values ?child ?acts MInf alpha beta"
    using True by (simp add: explored_values_def)
  have run: "max_loop ?child ?acts MInf None alpha beta = Inr (v, best_action)"
    using assms True by simp
  from max_loop_first_best [OF run] show ?thesis
  proof
    assume "best_action = None \<and> v = MInf
              \<and> (\<forall>w \<in> set (max_values ?child ?acts MInf alpha beta). w \<le> MInf)"
    then show ?thesis
      unfolding vals using True max_values_length [of ?child ?acts MInf alpha beta]
      by (auto dest: le_MInf)
  next
    assume "\<exists>i < length (max_values ?child ?acts MInf alpha beta).
              best_action = Some (?acts ! i)
              \<and> max_values ?child ?acts MInf alpha beta ! i = v \<and> MInf < v
              \<and> (\<forall>j < i. max_values ?child ?acts MInf alpha beta ! j < v)"
    then obtain i where i: "i < length (max_values ?child ?acts MInf alpha beta)"
      "best_action = Some (?acts ! i)" "max_values ?child ?acts MInf alpha beta ! i = v"
      "MInf < v" "\<forall>j < i. max_values ?child ?acts MInf alpha beta ! j < v"
      by blast
    have "v \<in> set (max_values ?child ?acts MInf alpha beta)"
      using i(1,3) nth_mem by blast
    moreover have "v \<noteq> MInf"
      using i(4) by auto
    ultimately have some:
      "\<not> (\<forall>w \<in> set (max_values ?child ?acts MInf alpha beta). w = MInf)"
      by blast
    show ?thesis
      unfolding vals using True max_values_length [of ?child ?acts MInf alpha beta] i some
      by auto
  qed
next
  case False
  let ?child = "\<lambda>action a b. value_of (minimax g me (apply_action g state action) d a b True)"
  let ?acts = "generate_possible_light_actions g state"
  have vals: "explored_values g me state d alpha beta mp = min_values ?child ?acts PInf alpha beta"
    using False by (simp add: explored_values_def)
  have run: "min_loop ?child ?acts PInf None alpha beta = Inr (v, best_action)"
    using assms False by simp
  from min_loop_first_best [OF run] show ?thesis
  proof
    assume "best_action = None \<and> v = PInf
              \<and> (\<forall>w \<in> set (min_values ?child ?acts PInf alpha beta). PInf \<le> w)"
    then show ?thesis
      unfolding vals using False min_values_length [of ?child ?acts PInf alpha beta]
      by (auto dest: PInf_le)
  next
    assume "\<exists>i < length (min_values ?child ?acts PInf alpha beta).
              best_action = Some (?acts ! i)
              \<and> min_values ?child ?acts PInf alpha beta ! i = v \<and> v < PInf
              \<and> (\<forall>j < i. min_values ?child ?acts PInf alpha beta ! j > v)"
    then obtain i where i: "i < length (min_values ?child ?acts PInf alpha beta)"
      "best_action = Some (?acts ! i)" "min_values ?child ?acts PInf alpha beta ! i = v"
      "v < PInf" "\<forall>j < i. min_values ?child ?acts PInf alpha beta ! j > v"
      by blast
    have "v \<in> set (min_values ?child ?acts PInf alpha beta)"
      using i(1,3) nth_mem by blast
    moreover have "v \<noteq> PInf"
      using i(4) by auto
    ultimately have some:
      "\<not> (\<forall>w \<in> set (min_values ?child ?acts PInf alpha beta). w = PInf)"
      by blast
    show ?thesis
      unfolding vals using False min_values_length [of ?child ?acts PInf alpha beta] i some
      by auto
  qed
qed

theorem minimax_tie_break_witness:
  "\<not> is_done demo []
   \<and> minimax demo (init 1) [] (Suc 0) MInf PInf True = Inr (Fin 5, Some 0)
   \<and> generate_possible_light_actions demo [] = [0, 1]
   \<and> explored_values demo (init 1) [] 0 MInf PInf True = [Fin 5, Fin 5]
   \<and> (\<exists>i < length (explored_values demo (init 1) [] 0 MInf PInf True).
         0 = generate_possible_light_actions demo [] ! i
         \<and> explored_values demo (init 1) [] 0 MInf PInf True ! i = Fin 5
         \<and> MInf < Fin 5
         \<and> (\<forall>j < i. explored_values demo (init 1) [] 0 MInf PInf True ! j < Fin 5))"
proof -
  have a: "\<not> is_done demo []"
    by (simp add: demo_is_done)
  have acts: "generate_possible_light_actions demo [] = [0, 1]"
    by (simp add: demo_actions)
  show ?thesis
    using minimax_tie_break [OF a demo_tie] a demo_tie acts demo_tie_values
    by simp
qed

text \<open>
  C6 as it is stated fails: in the game \<open>stuck\<close> the root has one move, the value
  received for it is minus infinity, the returned best value is minus infinity, and the
  search returns no move.
\<close>

theorem minimax_tie_break_counterexample:
  "\<not> is_done stuck 0
   \<and> generate_possible_light_actions stuck 0 = [()]
   \<and> explored_values stuck (init 1) 0 2 MInf PInf True = [MInf]
   \<and> minimax stuck (init 1) 0 (Suc 2) MInf PInf True = Inr (MInf, None)"
proof -
  have "minimax stuck (init 1) 0 (Suc 2) MInf PInf True = Inr (MInf, None)"
    using stuck_search by (simp only: numeral_3_eq_3 eval_nat_numeral)
  then show ?thesis
    by (simp add: stuck_fields stuck_values)
qed

section \<open>The controller\<close>

text \<open>
  C3. Whatever search the agent runs, when it returns, the call raises the
  "no valid action" error exactly when the returned move is not one of the state's legal
  moves, and returns the move itself when it is one; the error is the result of the call,
  with no second search and no other move. \<open>compute_action\<close> is this call with the
  agent's own search.
\<close>

theorem compute_action_validation:
  assumes "search state (search_depth me) MInf PInf True = Inr (v, action)"
  shows "(fst (compute_action_with search g me state remaining_time start_time end_time)
            = Inl MethodNotImplementedError
          \<longleftrightarrow> action \<notin> Some ` set (generate_possible_light_actions g state))
       \<and> (\<forall>a. action = Some a \<and> a \<in> set (generate_possible_light_actions g state)
            \<longrightarrow> fst (compute_action_with search g me state remaining_time start_time end_time)
                  = Inr a)
       \<and> compute_action g me state remaining_time start_time end_time
           = compute_action_with (minimax g me) g me state remaining_time start_time end_time"
proof (cases action)
  case None
  with assms show ?thesis
    by (auto simp: compute_action_with_None compute_action_with_minimax)
next
  case (Some a)
  with assms show ?thesis
    by (auto simp: compute_action_with_Some compute_action_with_minimax)
qed

theorem compute_action_validation_witness:
  "stub_search [] (search_depth (init 1)) MInf PInf True = Inr (Fin 0, Some 7)
   \<and> Some 7 \<notin> Some ` set (generate_possible_light_actions demo [])
   \<and> fst (compute_action_with stub_search demo (init 1) [] 1 10 12)
       = Inl MethodNotImplementedError
   \<and> minimax demo (init 1) [] (search_depth (init 1)) MInf PInf True = Inr (Fin 8, Some 0)
   \<and> Some 0 \<in> Some ` set (generate_possible_light_actions demo [])
   \<and> fst (compute_action demo (init 1) [] 1 10 12) = Inr 0
   \<and> minimax demo (init 1) [0, 0] (search_depth (init 1)) MInf PInf True = Inr (Fin 8, None)
   \<and> None \<notin> Some ` set (generate_possible_light_actions demo [0, 0])
   \<and> fst (compute_action demo (init 1) [0, 0] 1 10 12) = Inl MethodNotImplementedError"
proof -
  have s: "stub_search [] (search_depth (init 1)) MInf PInf True = Inr (Fin 0, Some 7)"
    by (simp add: stub_search_def)
  have a: "minimax demo (init 1) [] (search_depth (init 1)) MInf PInf True
             = Inr (Fin 8, Some 0)"
    by (simp only: search_depth_init demo_search)
  have b: "minimax demo (init 1) [0, 0] (search_depth (init 1)) MInf PInf True
             = Inr (Fin 8, None)"
    by (simp only: search_depth_init demo_search_done)
  show ?thesis
    using compute_action_validation [where search = stub_search and state = "[]"
          and me = "init 1" and v = "Fin 0" and action = "Some 7" and g = demo
          and remaining_time = 1 and start_time = 10 and end_time = 12]
      compute_action_validation [where search = "minimax demo (init 1)" and state = "[]"
          and me = "init 1" and v = "Fin 8" and action = "Some 0" and g = demo
          and remaining_time = 1 and start_time = 10 and end_time = 12]
      compute_action_validation [where search = "minimax demo (init 1)" and state = "[0, 0]"
          and me = "init 1" and v = "Fin 8" and action = None and g = demo
          and remaining_time = 1 and start_time = 10 and end_time = 12]
      s a b stub_search_illegal
    by (simp add: demo_actions)
qed

text \<open>
  C9. The remaining-time argument of the caller has no effect: two calls from the same
  agent on the same state give the same result and the same agent afterwards, and the move
  is the one found at the depth of the agent's own budget, whatever the argument and the
  clock readings are.
\<close>

theorem compute_action_ignores_remaining_time:
  "compute_action g me state t1 start_time end_time
     = compute_action g me state t2 start_time end_time
   \<and> fst (compute_action g me state t1 start_time end_time)
     = fst (compute_action g me state t2 start_time' end_time')
   \<and> fst (compute_action g me state t1 start_time end_time)
     = (case minimax g me state (search_depth me) MInf PInf True of
          Inl e \<Rightarrow> Inl e
        | Inr (_, None) \<Rightarrow> Inl MethodNotImplementedError
        | Inr (_, Some a) \<Rightarrow>
            if a \<in> set (generate_possible_light_actions g state) then Inr a
            else Inl MethodNotImplementedError)"
proof -
  have same: "compute_action g me state t1 start_time end_time
     = compute_action g me state t2 start_time end_time"
    by (simp add: compute_action_def)
  have move: "fst (compute_action g me state t s e)
     = (case minimax g me state (search_depth me) MInf PInf True of
          Inl e \<Rightarrow> Inl e
        | Inr (_, None) \<Rightarrow> Inl MethodNotImplementedError
        | Inr (_, Some a) \<Rightarrow>
            if a \<in> set (generate_possible_light_actions g state) then Inr a
            else Inl MethodNotImplementedError)" for t s e
  proof (cases "minimax g me state (search_depth me) MInf PInf True")
    case (Inl err)
    then show ?thesis by (simp add: compute_action_raised)
  next
    case (Inr r)
    obtain v action where r: "r = (v, action)" by (cases r)
    show ?thesis
    proof (cases action)
      case None
      with Inr r show ?thesis by (simp add: compute_action_None)
    next
      case (Some a)
      with Inr r show ?thesis by (simp add: compute_action_Some)
    qed
  qed
  show ?thesis
    using same move [of t1 start_time end_time] move [of t2 start_time' end_time'] by simp
qed

text \<open>
  C10. When the root search answers no move the call raises the "no valid action" error.
  This is so on a finished state whose evaluation succeeds and on an unfinished state with
  no legal move; on every finished state and every state without legal moves the call
  returns no move.
\<close>

theorem compute_action_no_move:
  "(minimax g me state (search_depth me) MInf PInf True = Inr (v, None)
      \<longrightarrow> fst (compute_action g me state remaining_time start_time end_time)
            = Inl MethodNotImplementedError)
   \<and> (is_done g state \<and> evaluate_state g me state = Inr x
      \<longrightarrow> minimax g me state (search_depth me) MInf PInf True = Inr (Fin x, None)
          \<and> fst (compute_action g me state remaining_time start_time end_time)
            = Inl MethodNotImplementedError)
   \<and> (\<not> is_done g state \<and> generate_possible_light_actions g state = []
      \<longrightarrow> minimax g me state (search_depth me) MInf PInf True = Inr (MInf, None)
          \<and> fst (compute_action g me state remaining_time start_time end_time)
            = Inl MethodNotImplementedError)
   \<and> (is_done g state \<or> generate_possible_light_actions g state = []
      \<longrightarrow> (\<forall>a. fst (compute_action g me state remaining_time start_time end_time) \<noteq> Inr a))"
proof -
  obtain d where d: "search_depth me = Suc d"
    using get_dynamic_depth_positive by (auto simp: search_depth_def)
  have none: "fst (compute_action g me state remaining_time start_time end_time)
            = Inl MethodNotImplementedError"
    if "minimax g me state (search_depth me) MInf PInf True = Inr (w, None)" for w
    using that by (simp add: compute_action_None)
  have done_ok: "minimax g me state (search_depth me) MInf PInf True = Inr (Fin x, None)"
    if "is_done g state" "evaluate_state g me state = Inr x"
    using that by (simp add: d leaf_def)
  have done_raise: "\<exists>e. minimax g me state (search_depth me) MInf PInf True = Inl e"
    if "is_done g state" "evaluate_state g me state = Inl e" for e
    using that by (simp add: d leaf_def)
  have empty: "minimax g me state (search_depth me) MInf PInf True = Inr (MInf, None)"
    if "\<not> is_done g state" "generate_possible_light_actions g state = []"
    using that by (simp add: d)
  have never: "fst (compute_action g me state remaining_time start_time end_time) \<noteq> Inr a"
    if "is_done g state \<or> generate_possible_light_actions g state = []" for a
  proof (cases "is_done g state")
    case True
    show ?thesis
    proof (cases "evaluate_state g me state")
      case (Inl e)
      with True done_raise obtain e' where
        "minimax g me state (search_depth me) MInf PInf True = Inl e'" by blast
      then show ?thesis by (simp add: compute_action_raised)
    next
      case (Inr y)
      with True have "minimax g me state (search_depth me) MInf PInf True = Inr (Fin y, None)"
        by (simp add: d leaf_def)
      then show ?thesis by (simp add: compute_action_None)
    qed
  next
    case False
    with that empty none show ?thesis by simp
  qed
  show ?thesis
    using none done_ok empty never by blast
qed

theorem compute_action_no_move_witness:
  "is_done demo [0, 0] \<and> evaluate_state demo (init 1) [0, 0] = Inr 8
   \<and> fst (compute_action demo (init 1) [0, 0] 1 10 12) = Inl MethodNotImplementedError
   \<and> \<not> is_done stuck 2 \<and> generate_possible_light_actions stuck 2 = []
   \<and> fst (compute_action stuck (init 1) 2 1 10 12) = Inl MethodNotImplementedError
   \<and> minimax stuck (init 1) 0 (search_depth (init 1)) MInf PInf True = Inr (MInf, None)
   \<and> fst (compute_action stuck (init 1) 0 1 10 12) = Inl MethodNotImplementedError"
proof -
  have a: "is_done demo [0, 0] \<and> evaluate_state demo (init 1) [0, 0] = Inr 8"
    by (simp add: demo_is_done demo_evaluate leaf_score_def)
  have b: "\<not> is_done stuck 2 \<and> generate_possible_light_actions stuck 2 = []"
    by (simp add: stuck_fields)
  have c: "minimax stuck (init 1) 0 (search_depth (init 1)) MInf PInf True = Inr (MInf, None)"
    by (simp only: search_depth_init stuck_search)
  show ?thesis
    using compute_action_no_move [of demo "init 1" "[0, 0]" "Fin 8" 1 10 12 8]
      compute_action_no_move [of stuck "init 1" 2 MInf 1 10 12 0]
      compute_action_no_move [of stuck "init 1" 0 MInf 1 10 12 0] a b c
    by blast
qed

text \<open>
  C8, as the code has it. The budget never changes and \<open>time_used\<close> changes only at
  the one update of a call: a call whose search returns adds the difference of its two
  clock readings once, a call whose search raises leaves the accumulator as it was. After
  any sequence of calls on an agent whose evaluations all succeed, the accumulator is its
  starting value plus the sum of the measured differences; after any sequence of calls in
  which no reading went backwards, the accumulator has not decreased.
\<close>

theorem time_used_accumulates:
  "snd (compute_action g me state remaining_time start_time end_time) =
     (case minimax g me state (search_depth me) MInf PInf True of
        Inl e \<Rightarrow> me
      | Inr r \<Rightarrow> me\<lparr>time_used := time_used me + (end_time - start_time)\<rparr>)
   \<and> total_time_budget (sequential_calls g me calls) = total_time_budget me
   \<and> ((\<forall>state. \<exists>x. evaluate_state g me state = Inr x)
        \<longrightarrow> time_used (sequential_calls g me calls)
             = time_used me + (\<Sum>(state, remaining_time, start_time, end_time) \<leftarrow> calls.
                                 end_time - start_time))
   \<and> ((\<forall>(state, remaining_time, start_time, end_time) \<in> set calls. start_time \<le> end_time)
        \<longrightarrow> time_used me \<le> time_used (sequential_calls g me calls))"
proof (intro conjI impI)
  show "snd (compute_action g me state remaining_time start_time end_time) =
     (case minimax g me state (search_depth me) MInf PInf True of
        Inl e \<Rightarrow> me
      | Inr r \<Rightarrow> me\<lparr>time_used := time_used me + (end_time - start_time)\<rparr>)"
    by (rule compute_action_snd)
  show "total_time_budget (sequential_calls g me calls) = total_time_budget me"
    by (rule sequential_calls_budget)
next
  assume "\<forall>state. \<exists>x. evaluate_state g me state = Inr x"
  then show "time_used (sequential_calls g me calls)
             = time_used me + (\<Sum>(state, remaining_time, start_time, end_time) \<leftarrow> calls.
                                 end_time - start_time)"
    by (rule sequential_calls_sum)
next
  assume "\<forall>(state, remaining_time, start_time, end_time) \<in> set calls. start_time \<le> end_time"
  then show "time_used me \<le> time_used (sequential_calls g me calls)"
    by (rule sequential_calls_monotone)
qed

theorem time_used_accumulates_witness:
  "(\<forall>state. \<exists>x. evaluate_state demo (init 1) state = Inr x)
   \<and> time_used (sequential_calls demo (init 1) [([], 1, 10, 12), ([0], 1, 20, 23)]) = 5
   \<and> (10::real) \<le> 12 \<and> (20::real) \<le> 23
   \<and> time_used (init 1) \<le> time_used (sequential_calls demo (init 1) [([], 1, 10, 12), ([0], 1, 20, 23)])
   \<and> time_used (snd (compute_action demo (init 1) [] 1 10 12)) = 2"
proof -
  let ?calls = "[([] :: nat list, 1 :: real, 10 :: real, 12 :: real), ([0], 1, 20, 23)]"
  have ok: "\<forall>state. \<exists>x. evaluate_state demo (init 1) state = Inr x"
    by (simp add: demo_evaluate)
  have run: "minimax demo (init 1) [] (search_depth (init 1)) MInf PInf True
               = Inr (Fin 8, Some 0)"
    by (simp only: search_depth_init demo_search)
  have clock: "\<forall>(state, remaining_time, start_time, end_time) \<in> set ?calls.
                 start_time \<le> end_time"
    by simp
  note t = time_used_accumulates [of demo "init 1" "[]" 1 10 12 ?calls]
  note one = t [THEN conjunct1]
  note total = t [THEN conjunct2, THEN conjunct2, THEN conjunct1, THEN mp, OF ok]
  note mono = t [THEN conjunct2, THEN conjunct2, THEN conjunct2, THEN mp, OF clock]
  have two: "time_used (snd (compute_action demo (init 1) [] 1 10 12)) = 2"
    by (simp add: one run time_used_init)
  have five: "time_used (sequential_calls demo (init 1) ?calls) = 5"
    unfolding total by (simp add: time_used_init)
  show ?thesis
    using ok two five mono by simp
qed

text \<open>
  C8 as it is stated fails twice. With the readings 12 and then 10 the accumulator of a
  new agent goes from 0 to -2. In the game without scores the search raises
  \<^verbatim>\<open>KeyError\<close> and the call, whose readings are 10 and 12, leaves the accumulator
  at 0.
\<close>

theorem time_used_accumulates_counterexample:
  "time_used (init 1) = 0
   \<and> time_used (snd (compute_action demo (init 1) [] 1 12 10)) = - 2
   \<and> compute_action unscored (init 1) [] 1 10 12 = (Inl KeyError, init 1)"
proof -
  have run: "minimax demo (init 1) [] (search_depth (init 1)) MInf PInf True
               = Inr (Fin 8, Some 0)"
    by (simp only: search_depth_init demo_search)
  have raised: "minimax unscored (init 1) [] (search_depth (init 1)) MInf PInf True
               = Inl KeyError"
    by (simp only: search_depth_init unscored_search)
  show ?thesis
    using compute_action_Some [OF run, of 1 12 10] compute_action_raised [OF raised, of 1 10 12]
    by (simp add: init_def)
qed

end
